theory Spec2Isabelle
  imports Main
begin

section \<open>Strings\<close>

text \<open>
  A Python \<^verbatim>\<open>str\<close> is a sequence of Unicode code points: \<^verbatim>\<open>len\<close>, slicing and the
  \<^verbatim>\<open>re\<close> module all count code points, not bytes. A code point is modelled by its
  number, a string by the list of its code points. String literals of the source are
  ASCII and are written through \<open>ascii\<close>.
\<close>

type_synonym codepoint = nat
type_synonym ustr = "codepoint list"

definition ascii :: "string \<Rightarrow> ustr" where
  "ascii s = map of_char s"

section \<open>Comment flattener\<close>

text \<open>
  A node of the comment forest. \<^verbatim>\<open>hasattr(comment, 'body')\<close> is the test
  \<open>body c \<noteq> None\<close>: a placeholder node of the API client has no body.
\<close>

datatype comment = Comment (body: "ustr option") (replies: "comment list")

definition indent :: "nat \<Rightarrow> ustr" where
  "indent depth = concat (replicate depth (ascii ''  ''))"

definition comment_line :: "nat \<Rightarrow> ustr \<Rightarrow> ustr" where
  "comment_line depth b = indent depth @ ascii ''- '' @ b"

text \<open>
  \<^verbatim>\<open>extract_comments(comment_forest, depth, top_level_only)\<close>. The recursive call of
  the source passes no \<^verbatim>\<open>top_level_only\<close>, so the flag is \<open>False\<close> there.
\<close>

fun extract_comments :: "comment list \<Rightarrow> nat \<Rightarrow> bool \<Rightarrow> ustr list" where
  "extract_comments [] depth top_level_only = []"
| "extract_comments (Comment None rs # forest) depth top_level_only =
     extract_comments forest depth top_level_only"
| "extract_comments (Comment (Some b) rs # forest) depth top_level_only =
     (comment_line depth b
        # (if \<not> top_level_only \<and> rs \<noteq> []
           then extract_comments rs (depth + 1) False else []))
      @ extract_comments forest depth top_level_only"

subsection \<open>Vocabulary of the claims about the flattener\<close>

text \<open>Every node of the forest, at any depth, has a body.\<close>

fun all_have_body :: "comment list \<Rightarrow> bool" where
  "all_have_body [] = True"
| "all_have_body (Comment b rs # forest) =
     (b \<noteq> None \<and> all_have_body rs \<and> all_have_body forest)"

text \<open>The number of nodes of the forest, at all depths.\<close>

fun node_count :: "comment list \<Rightarrow> nat" where
  "node_count [] = 0"
| "node_count (Comment b rs # forest) = 1 + node_count rs + node_count forest"

text \<open>
  Pre-order traversal as the glossary words it: visit a node, then its children from
  first to last, before moving to the next sibling. Each visited node is paired with
  its depth.
\<close>

fun preorder_node :: "nat \<Rightarrow> comment \<Rightarrow> (nat \<times> comment) list" where
  "preorder_node d (Comment b rs) =
     (d, Comment b rs) # concat (map (preorder_node (d + 1)) rs)"

definition preorder_forest :: "nat \<Rightarrow> comment list \<Rightarrow> (nat \<times> comment) list" where
  "preorder_forest d forest = concat (map (preorder_node d) forest)"

text \<open>The line the specification asks for a node with body at depth \<open>d\<close>.\<close>

definition node_line :: "nat \<times> comment \<Rightarrow> ustr" where
  "node_line p = concat (replicate (fst p) (ascii ''  '')) @ ascii ''- '' @ the (body (snd p))"

text \<open>A node with its replies cut off.\<close>

definition without_replies :: "comment \<Rightarrow> comment" where
  "without_replies c = Comment (body c) []"

text \<open>The forest with every subtree rooted at a bodyless node removed.\<close>

fun prune :: "comment list \<Rightarrow> comment list" where
  "prune [] = []"
| "prune (Comment None rs # forest) = prune forest"
| "prune (Comment (Some b) rs # forest) = Comment (Some b) (prune rs) # prune forest"

section \<open>Character classes of the runtime\<close>

text \<open>
  The sanitizer uses \<^verbatim>\<open>\w\<close>, \<^verbatim>\<open>\s\<close> and \<^verbatim>\<open>str.lower\<close>, which the interpreter answers from its
  Unicode database. For ASCII code points the answers are fixed and written out here.
  For the others the database is not part of the program: it is the parameter
  \<open>U\<close> of everything below.
\<close>

record unicode_tables =
  uni_isalnum :: "codepoint \<Rightarrow> bool"
  uni_isspace :: "codepoint \<Rightarrow> bool"
  uni_lower :: "ustr \<Rightarrow> ustr"

definition is_ascii :: "ustr \<Rightarrow> bool" where
  "is_ascii s = list_all (\<lambda>c. c < 128) s"

text \<open>\<^verbatim>\<open>[a-zA-Z0-9]\<close>, which is also \<^verbatim>\<open>str.isalnum\<close> on ASCII.\<close>

definition ascii_isalnum :: "codepoint \<Rightarrow> bool" where
  "ascii_isalnum c = (48 \<le> c \<and> c \<le> 57 \<or> 65 \<le> c \<and> c \<le> 90 \<or> 97 \<le> c \<and> c \<le> 122)"

text \<open>ASCII whitespace of \<^verbatim>\<open>str\<close>: TAB, LF, VT, FF, CR, FS, GS, RS, US and the space.\<close>

definition ascii_isspace :: "codepoint \<Rightarrow> bool" where
  "ascii_isspace c = (9 \<le> c \<and> c \<le> 13 \<or> 28 \<le> c \<and> c \<le> 32)"

definition ascii_lower :: "codepoint \<Rightarrow> codepoint" where
  "ascii_lower c = (if 65 \<le> c \<and> c \<le> 90 then c + 32 else c)"

definition isalnum :: "unicode_tables \<Rightarrow> codepoint \<Rightarrow> bool" where
  "isalnum U c = (if c < 128 then ascii_isalnum c else uni_isalnum U c)"

text \<open>\<^verbatim>\<open>\s\<close> of a \<^verbatim>\<open>str\<close> pattern.\<close>

definition isspace :: "unicode_tables \<Rightarrow> codepoint \<Rightarrow> bool" where
  "isspace U c = (if c < 128 then ascii_isspace c else uni_isspace U c)"

text \<open>\<^verbatim>\<open>\w\<close> of a \<^verbatim>\<open>str\<close> pattern: alphanumeric or the underscore (95).\<close>

definition is_word :: "unicode_tables \<Rightarrow> codepoint \<Rightarrow> bool" where
  "is_word U c = (isalnum U c \<or> c = 95)"

text \<open>\<^verbatim>\<open>str.lower\<close>. It may change the length of a non-ASCII string.\<close>

definition lower :: "unicode_tables \<Rightarrow> ustr \<Rightarrow> ustr" where
  "lower U s = (if is_ascii s then map ascii_lower s else uni_lower U s)"

section \<open>Text sanitizer\<close>

text \<open>The class \<^verbatim>\<open>[<>:"/\|?*]\<close>: code points 60, 62, 58, 34, 47, 92, 124, 63, 42.\<close>

definition path_illegal :: "codepoint \<Rightarrow> bool" where
  "path_illegal c = (c \<in> set [60, 62, 58, 34, 47, 92, 124, 63, 42])"

text \<open>
  \<^verbatim>\<open>re.sub('[...]+', repl, text)\<close> for a character class \<open>cls\<close>: every maximal run of
  characters of the class is replaced by \<open>repl\<close>.
\<close>

function sub_runs :: "(codepoint \<Rightarrow> bool) \<Rightarrow> ustr \<Rightarrow> ustr \<Rightarrow> ustr" where
  "sub_runs cls repl [] = []"
| "sub_runs cls repl (c # cs) =
     (if cls c then repl @ sub_runs cls repl (dropWhile cls cs)
      else c # sub_runs cls repl cs)"
  by pat_completeness auto
termination
  by (relation "measure (\<lambda>(cls, repl, s). length s)")
     (auto simp: length_dropWhile_le less_Suc_eq_le)

text \<open>\<^verbatim>\<open>s.strip(ch)\<close> for a single character \<open>ch\<close>.\<close>

definition strip :: "codepoint \<Rightarrow> ustr \<Rightarrow> ustr" where
  "strip ch s = rev (dropWhile (\<lambda>c. c = ch) (rev (dropWhile (\<lambda>c. c = ch) s)))"

text \<open>
  \<^verbatim>\<open>sanitize_filename(text)\<close>. A \<^verbatim>\<open>re.sub\<close> of a one-character class by the empty
  string is a filter. 45 is the hyphen, 95 the underscore.
\<close>

definition sanitize_filename :: "unicode_tables \<Rightarrow> ustr \<Rightarrow> ustr" where
  "sanitize_filename U text =
     (let text1 = filter (\<lambda>c. \<not> path_illegal c) text;
          text2 = filter (\<lambda>c. is_word U c \<or> isspace U c \<or> c = 45) text1;
          text3 = sub_runs (\<lambda>c. c = 45 \<or> isspace U c) (ascii ''_'') text2
      in strip 95 (take 100 (lower U text3)))"

section \<open>URL parser\<close>

text \<open>
  The pattern \<^verbatim>\<open>/comments/([a-zA-Z0-9]+)\<close> tried at the start of \<open>s\<close>: the literal, then
  the longest run of ASCII alphanumerics, which must not be empty. The result is
  group 1.
\<close>

definition match_here :: "ustr \<Rightarrow> ustr option" where
  "match_here s =
     (if take 10 s = ascii ''/comments/''
      then (let g = takeWhile ascii_isalnum (drop 10 s)
            in if g = [] then None else Some g)
      else None)"

text \<open>\<^verbatim>\<open>re.search\<close>: the match at the leftmost position that has one.\<close>

fun re_search :: "ustr \<Rightarrow> ustr option" where
  "re_search [] = None"
| "re_search (c # cs) =
     (case match_here (c # cs) of Some g \<Rightarrow> Some g | None \<Rightarrow> re_search cs)"

definition extract_post_id :: "ustr \<Rightarrow> ustr option" where
  "extract_post_id url = re_search url"

section \<open>Errors\<close>

text \<open>
  The exceptions that reach the error boundary of \<^verbatim>\<open>main\<close>. \<open>ValueError\<close> is raised by the
  program itself; the others come from the API client and from the file system.
\<close>

datatype error =
    ValueError ustr
  | RemoteError ustr
  | FileExistsError ustr
  | IsADirectoryError ustr
  | PermissionError ustr

text \<open>\<^verbatim>\<open>str(e)\<close>; 39 is the single quote.\<close>

fun error_message :: "error \<Rightarrow> ustr" where
  "error_message (ValueError m) = m"
| "error_message (RemoteError m) = m"
| "error_message (FileExistsError p) = ascii ''[Errno 17] File exists: '' @ [39] @ p @ [39]"
| "error_message (IsADirectoryError p) = ascii ''[Errno 21] Is a directory: '' @ [39] @ p @ [39]"
| "error_message (PermissionError p) = ascii ''[Errno 13] Permission denied: '' @ [39] @ p @ [39]"

section \<open>Post extraction\<close>

text \<open>What the API client hands over for a post id, after \<^verbatim>\<open>replace_more\<close>.\<close>

record submission =
  sub_title :: ustr
  sub_display_name :: ustr
  sub_selftext :: ustr
  sub_comments :: "comment list"

record post_data =
  pd_title :: ustr
  pd_subreddit :: ustr
  pd_content :: ustr
  pd_url :: ustr
  pd_comments :: "ustr list"

record reddit_ripper =
  client_id :: ustr
  client_secret :: ustr
  user_agent :: ustr

text \<open>The API client: from the connection and a post id to a submission, or an exception.\<close>

type_synonym api_client = "reddit_ripper \<Rightarrow> ustr \<Rightarrow> error + submission"

text \<open>What the run does that can be observed from outside, in order.\<close>

datatype event = RemoteFetch ustr | Stdout ustr | Stderr ustr

text \<open>
  \<^verbatim>\<open>extract_post(url, top_level_only)\<close>, with the remote fetch it makes, if any.
  \<^verbatim>\<open>not post_id\<close> holds for \<^verbatim>\<open>None\<close> and for the empty string.
\<close>

definition extract_post ::
  "api_client \<Rightarrow> reddit_ripper \<Rightarrow> ustr \<Rightarrow> bool \<Rightarrow> event list \<times> (error + post_data)" where
  "extract_post remote self url top_level_only =
     (case extract_post_id url of
        None \<Rightarrow> ([], Inl (ValueError (ascii ''Invalid Reddit URL'')))
      | Some post_id \<Rightarrow>
          if post_id = [] then ([], Inl (ValueError (ascii ''Invalid Reddit URL'')))
          else ([RemoteFetch post_id],
                case remote self post_id of
                  Inl e \<Rightarrow> Inl e
                | Inr submission \<Rightarrow>
                    Inr \<lparr> pd_title = sub_title submission,
                          pd_subreddit = sub_display_name submission,
                          pd_content = (if sub_selftext submission \<noteq> []
                                        then sub_selftext submission
                                        else ascii ''[Link Post]''),
                          pd_url = url,
                          pd_comments =
                            extract_comments (sub_comments submission) 0 top_level_only \<rparr>))"

section \<open>Document formatter\<close>

text \<open>\<^verbatim>\<open>sep.join(xs)\<close>.\<close>

fun join :: "ustr \<Rightarrow> ustr list \<Rightarrow> ustr" where
  "join sep [] = []"
| "join sep [x] = x"
| "join sep (x # y # ys) = x @ sep @ join sep (y # ys)"

text \<open>The line feed, code point 10.\<close>

definition nl :: ustr where
  "nl = [10]"

definition format_markdown :: "post_data \<Rightarrow> ustr" where
  "format_markdown post_data =
     (let md = ascii ''# '' @ pd_title post_data @ nl @ nl;
          md = md @ ascii ''**Original Post:** '' @ pd_url post_data @ nl @ nl;
          md = md @ ascii ''**Subreddit:** r/'' @ pd_subreddit post_data @ nl @ nl;
          md = md @ ascii ''## Post Content'' @ nl @ nl @ pd_content post_data @ nl @ nl
      in if pd_comments post_data \<noteq> []
         then (md @ ascii ''## Comments'' @ nl @ nl) @ join nl (pd_comments post_data)
         else md)"

section \<open>File writer\<close>

text \<open>
  The part of the file system the writer touches: which paths are directories, the
  content of the regular files, and where the process may write.
\<close>

record filesystem =
  fs_dirs :: "ustr set"
  fs_files :: "ustr \<rightharpoonup> ustr"
  fs_writable :: "ustr \<Rightarrow> bool"

text \<open>\<^verbatim>\<open>os.makedirs(p, exist_ok=True)\<close> for a one-component relative path.\<close>

definition makedirs :: "ustr \<Rightarrow> filesystem \<Rightarrow> error + filesystem" where
  "makedirs p fs =
     (if p \<in> fs_dirs fs then Inr fs
      else if fs_files fs p \<noteq> None then Inl (FileExistsError p)
      else if \<not> fs_writable fs p then Inl (PermissionError p)
      else Inr (fs\<lparr>fs_dirs := insert p (fs_dirs fs)\<rparr>))"

text \<open>\<^verbatim>\<open>open(p, 'w').write(content)\<close>: the file is created or overwritten.\<close>

definition write_text :: "ustr \<Rightarrow> ustr \<Rightarrow> filesystem \<Rightarrow> error + filesystem" where
  "write_text p content fs =
     (if p \<in> fs_dirs fs then Inl (IsADirectoryError p)
      else if \<not> fs_writable fs p then Inl (PermissionError p)
      else Inr (fs\<lparr>fs_files := (fs_files fs)(p \<mapsto> content)\<rparr>))"

text \<open>\<^verbatim>\<open>os.path.join(a, b)\<close> on POSIX; 47 is the slash.\<close>

definition path_join :: "ustr \<Rightarrow> ustr \<Rightarrow> ustr" where
  "path_join a b =
     (if take 1 b = [47] then b
      else if a = [] \<or> drop (length a - 1) a = [47] then a @ b
      else a @ [47] @ b)"

definition save_to_file ::
  "unicode_tables \<Rightarrow> post_data \<Rightarrow> ustr \<Rightarrow> filesystem \<Rightarrow> error + (filesystem \<times> ustr)" where
  "save_to_file U post_data markdown_content fs =
     (case makedirs (ascii ''output'') fs of
        Inl e \<Rightarrow> Inl e
      | Inr fs1 \<Rightarrow>
          (let title = sanitize_filename U (pd_title post_data);
               subreddit = sanitize_filename U (pd_subreddit post_data);
               filename = ascii ''reddit_'' @ title @ ascii ''_'' @ subreddit @ ascii ''.md'';
               filepath = path_join (ascii ''output'') filename
           in case write_text filepath markdown_content fs1 of
                Inl e \<Rightarrow> Inl e
              | Inr fs2 \<Rightarrow> Inr (fs2, filepath)))"

section \<open>Orchestrator\<close>

record args =
  arg_url :: ustr
  arg_client_id :: "ustr option"
  arg_client_secret :: "ustr option"
  arg_user_agent :: ustr
  arg_top_level_only :: bool

text \<open>Truth value of an optional string: \<^verbatim>\<open>None\<close> and \<^verbatim>\<open>''\<close> are false.\<close>

fun truthy :: "ustr option \<Rightarrow> bool" where
  "truthy None = False"
| "truthy (Some s) = (s \<noteq> [])"

text \<open>\<^verbatim>\<open>a or b\<close>.\<close>

definition py_or :: "ustr option \<Rightarrow> ustr option \<Rightarrow> ustr option" where
  "py_or a b = (if truthy a then a else b)"

record outcome =
  out_events :: "event list"
  out_exit :: nat
  out_fs :: filesystem

text \<open>
  The two credentials as \<^verbatim>\<open>main\<close> resolves them: \<^verbatim>\<open>args.client_id or os.getenv(...)\<close> and
  the same for the secret.
\<close>

definition resolve_client_id :: "args \<Rightarrow> (ustr \<Rightarrow> ustr option) \<Rightarrow> ustr option" where
  "resolve_client_id a getenv = py_or (arg_client_id a) (getenv (ascii ''REDDIT_CLIENT_ID''))"

definition resolve_client_secret :: "args \<Rightarrow> (ustr \<Rightarrow> ustr option) \<Rightarrow> ustr option" where
  "resolve_client_secret a getenv =
     py_or (arg_client_secret a) (getenv (ascii ''REDDIT_CLIENT_SECRET''))"

definition credentials_message :: ustr where
  "credentials_message =
     ascii ''Error: Reddit API credentials required. Provide via CLI args or .env file.''"

text \<open>
  \<^verbatim>\<open>main()\<close> after argument parsing; \<open>getenv\<close> is \<^verbatim>\<open>os.getenv\<close> once the settings file has
  been loaded into the environment.
\<close>

definition main ::
  "unicode_tables \<Rightarrow> api_client \<Rightarrow> (ustr \<Rightarrow> ustr option) \<Rightarrow> filesystem \<Rightarrow> args \<Rightarrow> outcome" where
  "main U remote getenv fs a =
     (let cid = resolve_client_id a getenv;
          csecret = resolve_client_secret a getenv
      in if \<not> truthy cid \<or> \<not> truthy csecret
         then \<lparr> out_events = [Stderr credentials_message], out_exit = 1, out_fs = fs \<rparr>
         else
           (let ripper = \<lparr> client_id = the cid, client_secret = the csecret,
                           user_agent = arg_user_agent a \<rparr>;
                (evs, r) = extract_post remote ripper (arg_url a) (arg_top_level_only a)
            in case r of
                 Inl e \<Rightarrow> \<lparr> out_events = evs @ [Stderr (ascii ''Error: '' @ error_message e)],
                            out_exit = 1, out_fs = fs \<rparr>
               | Inr post_data \<Rightarrow>
                   (case save_to_file U post_data (format_markdown post_data) fs of
                      Inl e \<Rightarrow> \<lparr> out_events = evs @ [Stderr (ascii ''Error: '' @ error_message e)],
                                 out_exit = 1, out_fs = fs \<rparr>
                    | Inr (fs', filename) \<Rightarrow>
                        \<lparr> out_events = evs @ [Stdout (ascii ''Successfully extracted to: '' @ filename)],
                          out_exit = 0, out_fs = fs' \<rparr>)))"

text \<open>\<^verbatim>\<open>sub in s\<close> for strings.\<close>

fun contains :: "ustr \<Rightarrow> ustr \<Rightarrow> bool" where
  "contains sub [] = (sub = [])"
| "contains sub (c # cs) = (take (length sub) (c # cs) = sub \<or> contains sub cs)"

section \<open>Vocabulary of the claims about the URL parser\<close>

text \<open>
  The segment the specification describes, read at the start of \<open>s\<close>: the literal
  \<^verbatim>\<open>/comments/\<close>, a non-empty alphanumeric identifier, and the closing slash. The
  identifier is followed by a slash, so it is the whole alphanumeric run.
\<close>

definition segment_here :: "ustr \<Rightarrow> ustr option" where
  "segment_here s =
     (if take 10 s = ascii ''/comments/''
      then (let g = takeWhile ascii_isalnum (drop 10 s)
            in if g \<noteq> [] \<and> take 1 (drop (10 + length g) s) = [47] then Some g else None)
      else None)"

text \<open>The identifiers of all such segments of a URL, from left to right.\<close>

fun segments :: "ustr \<Rightarrow> ustr list" where
  "segments [] = []"
| "segments (c # cs) =
     (case segment_here (c # cs) of Some g \<Rightarrow> [g] | None \<Rightarrow> []) @ segments cs"

section \<open>Vocabulary of the claims about the sanitizer\<close>

text \<open>The text after the three substitutions of \<open>sanitize_filename\<close>, before lower-casing.\<close>

definition substituted :: "unicode_tables \<Rightarrow> ustr \<Rightarrow> ustr" where
  "substituted U text =
     sub_runs (\<lambda>c. c = 45 \<or> isspace U c) (ascii ''_'')
       (filter (\<lambda>c. is_word U c \<or> isspace U c \<or> c = 45)
          (filter (\<lambda>c. \<not> path_illegal c) text))"

text \<open>An ASCII digit, lower-case letter or underscore.\<close>

definition lower_word :: "codepoint \<Rightarrow> bool" where
  "lower_word c = (48 \<le> c \<and> c \<le> 57 \<or> 97 \<le> c \<and> c \<le> 122 \<or> c = 95)"

section \<open>Concrete inputs\<close>

text \<open>The thread of the end-to-end scenario: one comment with one reply.\<close>

definition scenario_forest :: "comment list" where
  "scenario_forest =
     [Comment (Some (ascii ''Nice!'')) [Comment (Some (ascii ''Thanks!'')) []]]"

text \<open>A forest with two placeholder nodes, one of them with a reply below it.\<close>

definition placeholder_forest :: "comment list" where
  "placeholder_forest =
     [Comment None [Comment (Some (ascii ''hidden'')) []],
      Comment (Some (ascii ''Nice!'')) [Comment None [], Comment (Some (ascii ''Thanks!'')) []]]"

text \<open>
  Two rows of the Unicode database beyond ASCII: U+0130 (304, LATIN CAPITAL LETTER I
  WITH DOT ABOVE) is a letter whose lower case is the two code points U+0069 U+0307,
  and U+0307 (775, COMBINING DOT ABOVE) is a mark, neither alphanumeric nor a space.
  No other non-ASCII row is filled in; the table is used on strings of ASCII, U+0130
  and U+0307 only.
\<close>

definition dotted_i_rows :: unicode_tables where
  "dotted_i_rows =
     \<lparr> uni_isalnum = (\<lambda>c. c = 304),
       uni_isspace = (\<lambda>c. False),
       uni_lower = (\<lambda>s. concat (map (\<lambda>c. if c = 304 then [105, 775] else [ascii_lower c]) s)) \<rparr>"

text \<open>
  Four rows of the Unicode database beyond ASCII: U+00C9 (201, LATIN CAPITAL LETTER E
  WITH ACUTE) is a letter whose lower case is U+00E9 (233), itself a letter; U+0130 and
  U+0307 are as above. The table is used on strings of ASCII and these four only.
\<close>

definition accent_rows :: unicode_tables where
  "accent_rows =
     \<lparr> uni_isalnum = (\<lambda>c. c = 201 \<or> c = 233 \<or> c = 304),
       uni_isspace = (\<lambda>c. False),
       uni_lower = (\<lambda>s. concat (map (\<lambda>c. if c = 304 then [105, 775]
                                           else if c = 201 then [233]
                                           else [ascii_lower c]) s)) \<rparr>"

text \<open>The lower case of one code point in \<open>accent_rows\<close>.\<close>

definition accent_lower :: "codepoint \<Rightarrow> ustr" where
  "accent_lower c = (if c = 304 then [105, 775] else if c = 201 then [233] else [ascii_lower c])"

definition scenario_url :: ustr where
  "scenario_url = ascii ''https://reddit.example/r/test/comments/abc123/some_title/''"

definition scenario_submission :: submission where
  "scenario_submission =
     \<lparr> sub_title = ascii ''Some Title'', sub_display_name = ascii ''test'',
       sub_selftext = ascii ''Hello'', sub_comments = scenario_forest \<rparr>"

definition scenario_remote :: api_client where
  "scenario_remote self post_id =
     (if post_id = ascii ''abc123'' then Inr scenario_submission
      else Inl (RemoteError (ascii ''received 404 HTTP response'')))"

definition scenario_ripper :: reddit_ripper where
  "scenario_ripper =
     \<lparr> client_id = ascii ''id'', client_secret = ascii ''secret'',
       user_agent = ascii ''RedditRipper/1.0'' \<rparr>"

definition scenario_post :: post_data where
  "scenario_post =
     \<lparr> pd_title = ascii ''Some Title'', pd_subreddit = ascii ''test'',
       pd_content = ascii ''Hello'', pd_url = scenario_url,
       pd_comments = [ascii ''- Nice!'', ascii ''  - Thanks!''] \<rparr>"

definition empty_fs :: filesystem where
  "empty_fs = \<lparr> fs_dirs = {}, fs_files = Map.empty, fs_writable = (\<lambda>p. True) \<rparr>"

definition id_env :: "ustr \<Rightarrow> ustr option" where
  "id_env name = (if name = ascii ''REDDIT_CLIENT_ID'' then Some (ascii ''envid'') else None)"

definition bare_args :: args where
  "bare_args =
     \<lparr> arg_url = scenario_url, arg_client_id = None, arg_client_secret = None,
       arg_user_agent = ascii ''RedditRipper/1.0'', arg_top_level_only = False \<rparr>"

text \<open>An invocation whose \<^verbatim>\<open>--client-id\<close> flag is given with the empty string as value.\<close>

definition empty_flag_args :: args where
  "empty_flag_args = bare_args\<lparr>arg_client_id := Some []\<rparr>"

section \<open>Vocabulary of the claim about the file writer\<close>


section \<open>Properties of the comment flattener\<close>

lemma length_extract_all:
  "all_have_body forest \<Longrightarrow> length (extract_comments forest d False) = node_count forest"
  by (induction forest d False rule: extract_comments.induct) auto

lemma length_extract_top:
  "all_have_body forest \<Longrightarrow> length (extract_comments forest d True) = length forest"
  by (induction forest d True rule: extract_comments.induct) auto

text \<open>
  C1. In a forest where every node has a body, the flattened sequence has one line per
  node when \<^verbatim>\<open>top_level_only\<close> is false, and one line per root when it is true.
\<close>

theorem extract_comments_length:
  assumes "all_have_body forest"
  shows "length (extract_comments forest 0 False) = node_count forest
       \<and> length (extract_comments forest 0 True) = length forest"
  using assms by (simp add: length_extract_all length_extract_top)

theorem extract_comments_length_witness:
  "all_have_body scenario_forest
   \<and> length (extract_comments scenario_forest 0 False) = 2
   \<and> length (extract_comments scenario_forest 0 True) = 1"
proof -
  have h: "all_have_body scenario_forest"
    by (simp add: scenario_forest_def)
  have "node_count scenario_forest = 2" and "length scenario_forest = 1"
    by (simp_all add: scenario_forest_def)
  with h extract_comments_length [OF h] show ?thesis by simp
qed

lemma node_line_eq: "node_line (d, Comment (Some b) rs) = comment_line d b"
  by (simp add: node_line_def comment_line_def indent_def)

lemma extract_preorder:
  "all_have_body forest \<Longrightarrow>
     extract_comments forest d False = map node_line (preorder_forest d forest)"
  by (induction forest d False rule: extract_comments.induct)
     (auto simp: preorder_forest_def node_line_eq)

lemma extract_top_roots:
  "all_have_body forest \<Longrightarrow>
     extract_comments forest d True = map (\<lambda>c. node_line (d, c)) forest"
  by (induction forest d True rule: extract_comments.induct)
     (auto simp: node_line_eq)

text \<open>
  C2. In a forest where every node has a body, the flattener emits the nodes in
  pre-order, a parent right before its children and siblings in their order, and the
  line of a node at depth \<open>d\<close> is two spaces \<open>d\<close> times, then \<^verbatim>\<open>- \<close>, then the raw body.
  With \<^verbatim>\<open>top_level_only\<close> the nodes visited are the roots, in their order.
\<close>

theorem extract_comments_preorder:
  assumes "all_have_body forest"
  shows "extract_comments forest 0 False = map node_line (preorder_forest 0 forest)
       \<and> extract_comments forest 0 True = map (\<lambda>c. node_line (0, c)) forest"
  using assms by (simp add: extract_preorder extract_top_roots)

theorem extract_comments_preorder_witness:
  "all_have_body scenario_forest
   \<and> extract_comments scenario_forest 0 False = [ascii ''- Nice!'', ascii ''  - Thanks!'']
   \<and> extract_comments scenario_forest 0 True = [ascii ''- Nice!'']"
proof -
  have h: "all_have_body scenario_forest"
    by (simp add: scenario_forest_def)
  have "map node_line (preorder_forest 0 scenario_forest) = [ascii ''- Nice!'', ascii ''  - Thanks!'']"
    by (simp add: scenario_forest_def preorder_forest_def node_line_def ascii_def)
  moreover have "map (\<lambda>c. node_line (0, c)) scenario_forest = [ascii ''- Nice!'']"
    by (simp add: scenario_forest_def node_line_def ascii_def)
  ultimately show ?thesis using h extract_comments_preorder [OF h] by simp
qed

lemma extract_top_strip:
  "extract_comments forest d True = extract_comments (map without_replies forest) d t"
  by (induction forest d True rule: extract_comments.induct)
     (auto simp: without_replies_def)

lemma extract_top_lines:
  "extract_comments forest d True =
     concat (map (\<lambda>c. case body c of None \<Rightarrow> [] | Some b \<Rightarrow> [comment_line d b]) forest)"
  by (induction forest d True rule: extract_comments.induct) auto

text \<open>
  C3. With \<^verbatim>\<open>top_level_only\<close> the flattener never descends: the result is the lines of
  the top-level nodes, the same as on the forest with all replies cut off, whatever
  the replies are. The function is total, so replies cause no error.
\<close>

theorem extract_comments_top_level_only:
  "extract_comments forest 0 True = extract_comments (map without_replies forest) 0 False
   \<and> extract_comments forest 0 True =
       concat (map (\<lambda>c. case body c of None \<Rightarrow> [] | Some b \<Rightarrow> [comment_line 0 b]) forest)"
  using extract_top_strip [of forest 0 False] extract_top_lines [of forest 0] by simp

theorem extract_comments_top_level_only_witness:
  "extract_comments scenario_forest 0 True = [ascii ''- Nice!'']
   \<and> extract_comments (map without_replies scenario_forest) 0 False = [ascii ''- Nice!'']"
proof -
  have "extract_comments scenario_forest 0 True = [ascii ''- Nice!'']"
    by (simp add: scenario_forest_def comment_line_def indent_def ascii_def)
  with extract_comments_top_level_only [of scenario_forest] show ?thesis by simp
qed

lemma extract_prune:
  "extract_comments (prune forest) d t = extract_comments forest d t"
  by (induction forest d t rule: extract_comments.induct) auto

lemma all_have_body_prune: "all_have_body (prune forest)"
  by (induction forest rule: prune.induct) auto

text \<open>
  C10. A node without a body contributes no line and its replies are never visited,
  whatever they are; the flattener is total, and its result on any forest is its
  result on the forest with the subtrees of bodyless nodes removed.
\<close>

theorem extract_comments_skips_bodyless:
  "extract_comments (Comment None rs # forest) d t = extract_comments forest d t
   \<and> extract_comments forest d t = extract_comments (prune forest) d t
   \<and> all_have_body (prune forest)"
  by (simp add: extract_prune all_have_body_prune)

theorem extract_comments_skips_bodyless_witness:
  "extract_comments placeholder_forest 0 False = [ascii ''- Nice!'', ascii ''  - Thanks!'']
   \<and> prune placeholder_forest = scenario_forest"
proof -
  have p: "prune placeholder_forest = scenario_forest"
    by (simp add: placeholder_forest_def scenario_forest_def)
  have "extract_comments scenario_forest 0 False = [ascii ''- Nice!'', ascii ''  - Thanks!'']"
    by (simp add: scenario_forest_def comment_line_def indent_def ascii_def)
  with p extract_comments_skips_bodyless [of "[]" placeholder_forest 0 False]
  show ?thesis by simp
qed

section \<open>Properties of the sanitizer\<close>

lemma dropWhile_hd_id: "s = [] \<or> \<not> p (hd s) \<Longrightarrow> dropWhile p s = s"
  by (cases s) auto

lemma set_strip: "set (strip ch s) \<subseteq> set s"
  unfolding strip_def
  by (metis set_dropWhileD set_rev subsetI)

lemma length_strip: "length (strip ch s) \<le> length s"
  unfolding strip_def
  by (metis length_dropWhile_le length_rev order_trans)

lemma strip_fixed:
  assumes "s = [] \<or> (hd s \<noteq> ch \<and> last s \<noteq> ch)"
  shows "strip ch s = s"
proof (cases "s = []")
  case True then show ?thesis by (simp add: strip_def)
next
  case False
  with assms have h: "hd s \<noteq> ch" and l: "last s \<noteq> ch" by auto
  have a: "dropWhile (\<lambda>c. c = ch) s = s" using h by (intro dropWhile_hd_id) simp
  have "hd (rev s) \<noteq> ch" using False l by (simp add: hd_rev)
  then have "dropWhile (\<lambda>c. c = ch) (rev s) = rev s" by (intro dropWhile_hd_id) simp
  with a show ?thesis by (simp add: strip_def)
qed

lemma strip_ends: "strip ch s = [] \<or> (hd (strip ch s) \<noteq> ch \<and> last (strip ch s) \<noteq> ch)"
proof (cases "strip ch s = []")
  case True then show ?thesis by simp
next
  case False
  let ?p = "\<lambda>c. c = ch"
  let ?t = "dropWhile ?p s"
  let ?u = "dropWhile ?p (rev ?t)"
  have u: "?u \<noteq> []" using False by (simp add: strip_def)
  have "?t = [] \<Longrightarrow> ?u = []" by (simp only: rev.simps dropWhile.simps)
  with u have t: "?t \<noteq> []" by blast
  have "\<not> ?p (hd ?u)" using u by (rule hd_dropWhile)
  then have l: "last (strip ch s) \<noteq> ch" using u by (simp add: strip_def last_rev)
  have "\<not> ?p (hd ?t)" using t by (rule hd_dropWhile)
  then have ht: "hd ?t \<noteq> ch" by simp
  have "last (rev ?t) = hd ?t" using t by (simp add: last_rev)
  moreover have "last ?u = last (rev ?t)"
    using u by (metis last_appendR takeWhile_dropWhile_id)
  ultimately have "hd (strip ch s) \<noteq> ch" using u ht by (simp add: strip_def hd_rev)
  with l show ?thesis by simp
qed

lemma strip_idem: "strip ch (strip ch s) = strip ch s"
  by (rule strip_fixed) (rule strip_ends)

lemma set_sub_runs: "set (sub_runs cls repl s) \<subseteq> set repl \<union> {c \<in> set s. \<not> cls c}"
proof (induction cls repl s rule: sub_runs.induct)
  case (1 cls repl) then show ?case by simp
next
  case (2 cls repl c cs)
  show ?case
  proof (cases "cls c")
    case True
    with 2 have "set (sub_runs cls repl (dropWhile cls cs)) \<subseteq> set repl \<union> {c \<in> set (dropWhile cls cs). \<not> cls c}" by simp
    moreover have "set (dropWhile cls cs) \<subseteq> set cs" by (auto dest: set_dropWhileD)
    ultimately show ?thesis using True by auto
  next
    case False
    with 2 show ?thesis by auto
  qed
qed

lemma sub_runs_none: "\<forall>c\<in>set s. \<not> cls c \<Longrightarrow> sub_runs cls repl s = s"
  by (induction s) auto


lemma sanitize_alt: "sanitize_filename U text = strip 95 (take 100 (lower U (substituted U text)))"
  by (simp add: sanitize_filename_def substituted_def Let_def)

lemma ascii_underscore: "ascii ''_'' = [95]"
  by (simp add: ascii_def)

lemma substituted_chars:
  "c \<in> set (substituted U text) \<Longrightarrow> \<not> path_illegal c \<and> is_word U c \<and> \<not> isspace U c \<and> c \<noteq> 45"
proof -
  assume "c \<in> set (substituted U text)"
  then have "c \<in> set [95] \<union> {c \<in> set (filter (\<lambda>c. is_word U c \<or> isspace U c \<or> c = 45) (filter (\<lambda>c. \<not> path_illegal c) text)). \<not> (c = 45 \<or> isspace U c)}"
    using set_sub_runs[of "\<lambda>c. c = 45 \<or> isspace U c" "[95]"] 
    unfolding substituted_def ascii_underscore by blast
  then show ?thesis
    by (auto simp: path_illegal_def is_word_def isspace_def ascii_isspace_def)
qed

lemma substituted_ascii: "is_ascii text \<Longrightarrow> is_ascii (substituted U text)"
proof -
  assume a: "is_ascii text"
  have "set (substituted U text) \<subseteq> set [95] \<union> set text"
    using set_sub_runs[of "\<lambda>c. c = 45 \<or> isspace U c" "[95]"]
    unfolding substituted_def ascii_underscore by fastforce
  with a show ?thesis by (auto simp: is_ascii_def list_all_iff)
qed

lemma sanitize_length: "length (sanitize_filename U text) \<le> 100"
proof -
  have "length (sanitize_filename U text) \<le> length (take 100 (lower U (substituted U text)))"
    unfolding sanitize_alt by (rule length_strip)
  then show ?thesis by simp
qed

lemma ascii_lower_legal: "\<not> path_illegal c \<Longrightarrow> \<not> path_illegal (ascii_lower c)"
  by (auto simp: path_illegal_def ascii_lower_def)

lemma lower_legal:
  assumes U: "\<forall>s. (\<forall>c\<in>set s. \<not> path_illegal c) \<longrightarrow> (\<forall>c\<in>set (uni_lower U s). \<not> path_illegal c)"
    and s: "\<forall>c\<in>set s. \<not> path_illegal c"
  shows "\<forall>c\<in>set (lower U s). \<not> path_illegal c"
proof (cases "is_ascii s")
  case True
  then show ?thesis using s by (auto simp: lower_def ascii_lower_legal)
next
  case False
  then show ?thesis using U s by (simp add: lower_def)
qed

lemma sanitize_legal:
  assumes U: "\<forall>s. (\<forall>c\<in>set s. \<not> path_illegal c) \<longrightarrow> (\<forall>c\<in>set (uni_lower U s). \<not> path_illegal c)"
  shows "\<forall>c\<in>set (sanitize_filename U text). \<not> path_illegal c"
proof -
  have "\<forall>c\<in>set (substituted U text). \<not> path_illegal c" using substituted_chars by blast
  then have "\<forall>c\<in>set (lower U (substituted U text)). \<not> path_illegal c"
    by (rule lower_legal[OF U])
  moreover have "set (sanitize_filename U text) \<subseteq> set (lower U (substituted U text))"
    unfolding sanitize_alt using set_strip set_take_subset by (metis order_trans)
  ultimately show ?thesis by blast
qed

lemma substituted_all_illegal: "\<forall>c\<in>set text. path_illegal c \<Longrightarrow> substituted U text = []"
proof -
  assume "\<forall>c\<in>set text. path_illegal c"
  then have "filter (\<lambda>c. \<not> path_illegal c) text = []" by (simp add: filter_empty_conv)
  then show ?thesis by (simp add: substituted_def)
qed

lemma sanitize_all_illegal: "\<forall>c\<in>set text. path_illegal c \<Longrightarrow> sanitize_filename U text = []"
  by (simp add: sanitize_alt substituted_all_illegal lower_def is_ascii_def strip_def)

lemma sanitize_fixed:
  assumes w: "\<forall>c\<in>set r. is_word U c \<and> \<not> isspace U c \<and> c \<noteq> 45 \<and> \<not> path_illegal c"
    and l: "lower U r = r" and n: "length r \<le> 100" and e: "strip 95 r = r"
  shows "sanitize_filename U r = r"
proof -
  have 1: "filter (\<lambda>c. \<not> path_illegal c) r = r" using w by (simp add: filter_id_conv)
  have 2: "filter (\<lambda>c. is_word U c \<or> isspace U c \<or> c = 45) r = r" using w by (simp add: filter_id_conv)
  have 3: "sub_runs (\<lambda>c. c = 45 \<or> isspace U c) (ascii ''_'') r = r"
    using w by (intro sub_runs_none) auto
  have "substituted U r = r" by (simp add: substituted_def 1 2 3)
  then show ?thesis using l n e by (simp add: sanitize_alt)
qed

lemma sanitize_ascii_chars:
  assumes "is_ascii text"
  shows "\<forall>c\<in>set (sanitize_filename U text). lower_word c"
proof -
  have a: "is_ascii (substituted U text)" using assms by (rule substituted_ascii)
  have "\<forall>c\<in>set (substituted U text). c < 128 \<and> is_word U c"
    using a substituted_chars by (auto simp: is_ascii_def list_all_iff)
  then have "\<forall>c\<in>set (substituted U text). lower_word (ascii_lower c)"
    by (auto simp: is_word_def isalnum_def ascii_isalnum_def lower_word_def ascii_lower_def)
  then have "\<forall>c\<in>set (lower U (substituted U text)). lower_word c"
    using a by (auto simp: lower_def)
  moreover have "set (sanitize_filename U text) \<subseteq> set (lower U (substituted U text))"
    unfolding sanitize_alt using set_strip set_take_subset by (metis order_trans)
  ultimately show ?thesis by blast
qed

lemma lower_word_props:
  "lower_word c \<Longrightarrow> c < 128 \<and> is_word U c \<and> \<not> isspace U c \<and> c \<noteq> 45 \<and> \<not> path_illegal c \<and> ascii_lower c = c"
  by (auto simp: lower_word_def is_word_def isalnum_def ascii_isalnum_def isspace_def
      ascii_isspace_def path_illegal_def ascii_lower_def)

lemma sanitize_fixed_ascii:
  assumes "is_ascii text"
  shows "sanitize_filename U (sanitize_filename U text) = sanitize_filename U text"
proof (rule sanitize_fixed)
  let ?r = "sanitize_filename U text"
  have lw: "\<forall>c\<in>set ?r. lower_word c" using assms by (rule sanitize_ascii_chars)
  show "\<forall>c\<in>set ?r. is_word U c \<and> \<not> isspace U c \<and> c \<noteq> 45 \<and> \<not> path_illegal c"
    using lw lower_word_props by blast
  have "is_ascii ?r" using lw lower_word_props by (auto simp: is_ascii_def list_all_iff)
  moreover have "map ascii_lower ?r = ?r" using lw lower_word_props by (simp add: map_idI)
  ultimately show "lower U ?r = ?r" by (simp add: lower_def)
  show "length ?r \<le> 100" by (rule sanitize_length)
  show "strip 95 ?r = ?r" unfolding sanitize_alt by (rule strip_idem)
qed

lemma dotted_i_rows_keep_legal:
  "\<forall>s. (\<forall>c\<in>set s. \<not> path_illegal c) \<longrightarrow>
       (\<forall>c\<in>set (uni_lower dotted_i_rows s). \<not> path_illegal c)"
  by (auto simp: dotted_i_rows_def path_illegal_def ascii_lower_def split: if_splits)

lemma substituted_subset: "set (substituted U text) \<subseteq> insert 95 (set text)"
  using set_sub_runs [of "\<lambda>c. c = 45 \<or> isspace U c" "[95]"]
  unfolding substituted_def ascii_underscore by fastforce

lemma sanitize_subset_lower:
  "set (sanitize_filename U text) \<subseteq> set (lower U (substituted U text))"
  unfolding sanitize_alt using set_strip set_take_subset by (metis order_trans)

lemma word_not_hyphen_legal: "is_word U c \<Longrightarrow> c \<noteq> 45 \<and> \<not> path_illegal c"
  by (auto simp: is_word_def isalnum_def ascii_isalnum_def path_illegal_def split: if_splits)

lemma sanitize_fixed_tables:
  assumes disjoint: "\<forall>c. is_word U c \<longrightarrow> \<not> isspace U c"
    and word: "\<forall>s. 304 \<notin> set s \<and> (\<forall>c\<in>set s. is_word U c)
                 \<longrightarrow> (\<forall>c\<in>set (lower U s). is_word U c)"
    and stable: "\<forall>s t. set t \<subseteq> set (lower U s) \<longrightarrow> lower U t = t"
    and x: "304 \<notin> set text"
  shows "sanitize_filename U (sanitize_filename U text) = sanitize_filename U text"
proof (rule sanitize_fixed)
  let ?s = "substituted U text"
  let ?r = "sanitize_filename U text"
  have s_word: "\<forall>c\<in>set ?s. is_word U c" using substituted_chars by blast
  have "304 \<notin> set ?s" using x substituted_subset [of U "text"] by auto
  with s_word word have l_word: "\<forall>c\<in>set (lower U ?s). is_word U c" by blast
  then have r_word: "\<forall>c\<in>set ?r. is_word U c"
    using sanitize_subset_lower [of U "text"] by blast
  show "\<forall>c\<in>set ?r. is_word U c \<and> \<not> isspace U c \<and> c \<noteq> 45 \<and> \<not> path_illegal c"
    using r_word disjoint word_not_hyphen_legal by blast
  show "lower U ?r = ?r"
    using stable sanitize_subset_lower [of U "text"] by blast
  show "length ?r \<le> 100" by (rule sanitize_length)
  show "strip 95 ?r = ?r" unfolding sanitize_alt by (rule strip_idem)
qed

lemma lower_accent_rows: "lower accent_rows s = concat (map accent_lower s)"
proof -
  have "is_ascii s \<Longrightarrow> map ascii_lower s = concat (map accent_lower s)"
    by (induction s) (auto simp: is_ascii_def accent_lower_def)
  then show ?thesis
    by (auto simp: lower_def accent_rows_def accent_lower_def [abs_def])
qed

lemma accent_lower_stable: "d \<in> set (accent_lower c) \<Longrightarrow> accent_lower d = [d]"
  by (auto simp: accent_lower_def ascii_lower_def split: if_splits)

lemma accent_rows_stable:
  "\<forall>s t. set t \<subseteq> set (lower accent_rows s) \<longrightarrow> lower accent_rows t = t"
proof (intro allI impI)
  fix s t assume a: "set t \<subseteq> set (lower accent_rows s)"
  have "\<forall>d\<in>set t. accent_lower d = [d]"
    using a accent_lower_stable by (fastforce simp: lower_accent_rows)
  then have "concat (map accent_lower t) = t"
    by (induction t) auto
  then show "lower accent_rows t = t" by (simp add: lower_accent_rows)
qed

lemma accent_lower_word:
  "c \<noteq> 304 \<Longrightarrow> is_word accent_rows c \<Longrightarrow> d \<in> set (accent_lower c) \<Longrightarrow> is_word accent_rows d"
  by (auto simp: accent_lower_def is_word_def isalnum_def accent_rows_def
      ascii_isalnum_def ascii_lower_def split: if_splits)

lemma accent_rows_word:
  "\<forall>s. 304 \<notin> set s \<and> (\<forall>c\<in>set s. is_word accent_rows c)
       \<longrightarrow> (\<forall>c\<in>set (lower accent_rows s). is_word accent_rows c)"
proof (intro allI impI ballI)
  fix s d
  assume a: "304 \<notin> set s \<and> (\<forall>c\<in>set s. is_word accent_rows c)"
    and d: "d \<in> set (lower accent_rows s)"
  from d obtain c where c: "c \<in> set s" and dc: "d \<in> set (accent_lower c)"
    by (auto simp: lower_accent_rows)
  from a c have "c \<noteq> 304" and "is_word accent_rows c" by auto
  then show "is_word accent_rows d" using dc by (rule accent_lower_word)
qed

lemma accent_rows_disjoint: "\<forall>c. is_word accent_rows c \<longrightarrow> \<not> isspace accent_rows c"
  by (auto simp: is_word_def isalnum_def isspace_def accent_rows_def ascii_isalnum_def
      ascii_isspace_def split: if_splits)

text \<open>
  C4, as amended. On every string that does not contain U+0130 the sanitizer is
  idempotent. What is used of the interpreter's tables is that no word character is a
  space, that lower-casing a text of word characters without U+0130 gives word
  characters, and that a text made of characters of a lower-cased text is unchanged by
  lower-casing.
\<close>

theorem sanitize_filename_idempotent_without_dotted_i:
  assumes "\<forall>c. is_word U c \<longrightarrow> \<not> isspace U c"
    and "\<forall>s. 304 \<notin> set s \<and> (\<forall>c\<in>set s. is_word U c)
             \<longrightarrow> (\<forall>c\<in>set (lower U s). is_word U c)"
    and "\<forall>s t. set t \<subseteq> set (lower U s) \<longrightarrow> lower U t = t"
    and "304 \<notin> set text"
  shows "sanitize_filename U (sanitize_filename U text) = sanitize_filename U text"
  using assms by (rule sanitize_fixed_tables)

theorem sanitize_filename_idempotent_without_dotted_i_witness:
  "sanitize_filename accent_rows [67, 97, 102, 201, 32, 45, 66] = [99, 97, 102, 233, 95, 98]
   \<and> sanitize_filename accent_rows [99, 97, 102, 233, 95, 98] = [99, 97, 102, 233, 95, 98]"
proof -
  have x: "304 \<notin> set [67, 97, 102, 201, 32, 45, 66 :: nat]"
    by simp
  have v: "sanitize_filename accent_rows [67, 97, 102, 201, 32, 45, 66]
             = [99, 97, 102, 233, 95, 98]"
    by (simp add: sanitize_filename_def accent_rows_def path_illegal_def is_word_def
        isalnum_def isspace_def ascii_isalnum_def ascii_isspace_def lower_def is_ascii_def
        strip_def ascii_def ascii_lower_def)
  from sanitize_filename_idempotent_without_dotted_i
    [OF accent_rows_disjoint accent_rows_word accent_rows_stable x] v
  show ?thesis by simp
qed

text \<open>
  The claim as written fails at the one-character string U+0130: the first pass
  returns U+0069 U+0307, and the second pass removes the combining mark U+0307.
\<close>

theorem sanitize_filename_not_idempotent:
  "sanitize_filename dotted_i_rows [304] = [105, 775]
   \<and> sanitize_filename dotted_i_rows (sanitize_filename dotted_i_rows [304]) = [105]
   \<and> sanitize_filename dotted_i_rows (sanitize_filename dotted_i_rows [304])
       \<noteq> sanitize_filename dotted_i_rows [304]"
  by (simp add: sanitize_filename_def dotted_i_rows_def path_illegal_def is_word_def
      isalnum_def isspace_def ascii_isalnum_def ascii_isspace_def lower_def is_ascii_def
      strip_def ascii_def ascii_lower_def)

text \<open>
  C5. For every string, the sanitizer returns at most 100 characters, none of them
  illegal in a path, and it returns the empty string for the empty string and for a
  string of illegal characters only. It is a total function: it never raises. The
  lower-casing of non-ASCII text is the interpreter's; what is used of it is that it
  puts no path-illegal character into a text that has none.
\<close>

theorem sanitize_filename_bounded_legal:
  assumes "\<forall>s. (\<forall>c\<in>set s. \<not> path_illegal c) \<longrightarrow>
             (\<forall>c\<in>set (uni_lower U s). \<not> path_illegal c)"
  shows "length (sanitize_filename U text) \<le> 100
       \<and> (\<forall>c\<in>set (sanitize_filename U text). \<not> path_illegal c)
       \<and> sanitize_filename U [] = []
       \<and> ((\<forall>c\<in>set text. path_illegal c) \<longrightarrow> sanitize_filename U text = [])"
  using sanitize_length [of U "text"] sanitize_legal [OF assms, of "text"]
    sanitize_all_illegal [of "[]" U] sanitize_all_illegal [of "text" U]
  by simp

theorem sanitize_filename_bounded_legal_witness:
  "sanitize_filename dotted_i_rows (ascii ''<?>'') = []
   \<and> length (sanitize_filename dotted_i_rows (ascii ''a/b'')) \<le> 100
   \<and> list_all (\<lambda>c. \<not> path_illegal c) (sanitize_filename dotted_i_rows (ascii ''a/b''))"
proof -
  have i: "\<forall>c\<in>set (ascii ''<?>''). path_illegal c"
    by (simp add: ascii_def path_illegal_def)
  from sanitize_filename_bounded_legal [OF dotted_i_rows_keep_legal, of "ascii ''<?>''"] i
  have 1: "sanitize_filename dotted_i_rows (ascii ''<?>'') = []"
    by blast
  from sanitize_filename_bounded_legal [OF dotted_i_rows_keep_legal, of "ascii ''a/b''"]
  have 2: "length (sanitize_filename dotted_i_rows (ascii ''a/b'')) \<le> 100"
    and 3: "\<forall>c\<in>set (sanitize_filename dotted_i_rows (ascii ''a/b'')). \<not> path_illegal c"
    by blast+
  from 1 2 3 show ?thesis by (simp add: list_all_iff)
qed

section \<open>Properties of the URL parser\<close>

text \<open>
  What the search does as it is written: it finds nothing exactly when no
  \<^verbatim>\<open>/comments/\<close> is followed by an ASCII alphanumeric, and otherwise returns the
  alphanumeric run after the leftmost such place, closed by a slash or not.
\<close>

lemma match_here_Nil: "match_here [] = None"
  by (simp add: match_here_def ascii_def)

lemma comments_literal_length: "length (ascii ''/comments/'') = 10"
  by (simp add: ascii_def)

lemma not_alnum_slash: "\<not> ascii_isalnum 47"
  by (simp add: ascii_isalnum_def)

lemma match_here_iff:
  "match_here s = Some g \<longleftrightarrow>
     (\<exists>rest. s = ascii ''/comments/'' @ g @ rest \<and> g \<noteq> [] \<and> list_all ascii_isalnum g
        \<and> (rest = [] \<or> \<not> ascii_isalnum (hd rest)))"
proof
  assume "match_here s = Some g"
  then have t: "take 10 s = ascii ''/comments/''" and g: "g = takeWhile ascii_isalnum (drop 10 s)" and ne: "g \<noteq> []"
    by (auto simp: match_here_def Let_def split: if_splits)
  have "s = take 10 s @ drop 10 s" by simp
  also have "drop 10 s = g @ dropWhile ascii_isalnum (drop 10 s)" using g by simp
  finally have "s = ascii ''/comments/'' @ g @ dropWhile ascii_isalnum (drop 10 s)" using t by simp
  moreover have "list_all ascii_isalnum g" using g by (auto simp: list_all_iff dest: set_takeWhileD)
  moreover have "dropWhile ascii_isalnum (drop 10 s) = [] \<or> \<not> ascii_isalnum (hd (dropWhile ascii_isalnum (drop 10 s)))"
    using hd_dropWhile by blast
  ultimately show "\<exists>rest. s = ascii ''/comments/'' @ g @ rest \<and> g \<noteq> [] \<and> list_all ascii_isalnum g
        \<and> (rest = [] \<or> \<not> ascii_isalnum (hd rest))" using ne by blast
next
  assume "\<exists>rest. s = ascii ''/comments/'' @ g @ rest \<and> g \<noteq> [] \<and> list_all ascii_isalnum g
        \<and> (rest = [] \<or> \<not> ascii_isalnum (hd rest))"
  then obtain rest where s: "s = ascii ''/comments/'' @ g @ rest" and ne: "g \<noteq> []"
    and al: "list_all ascii_isalnum g" and r: "rest = [] \<or> \<not> ascii_isalnum (hd rest)" by blast
  have t: "take 10 s = ascii ''/comments/''" using s comments_literal_length by simp
  have d: "drop 10 s = g @ rest" using s comments_literal_length by simp
  have "takeWhile ascii_isalnum (g @ rest) = g"
  proof (cases rest)
    case Nil then show ?thesis using al by (simp add: list_all_iff)
  next
    case (Cons x xs)
    with r have "\<not> ascii_isalnum x" by simp
    then show ?thesis using al Cons by (simp add: list_all_iff takeWhile_tail)
  qed
  then show "match_here s = Some g" using t d ne by (simp add: match_here_def)
qed

lemma match_here_starts:
  "match_here s \<noteq> None \<longleftrightarrow> (\<exists>c rest. s = ascii ''/comments/'' @ c # rest \<and> ascii_isalnum c)"
proof
  assume "match_here s \<noteq> None"
  then obtain g where "match_here s = Some g" by blast
  then obtain rest where s: "s = ascii ''/comments/'' @ g @ rest" and ne: "g \<noteq> []"
    and al: "list_all ascii_isalnum g" using match_here_iff by blast
  from ne obtain c g' where g: "g = c # g'" by (cases g) auto
  with al have "ascii_isalnum c" by simp
  with s g show "\<exists>c rest. s = ascii ''/comments/'' @ c # rest \<and> ascii_isalnum c" by auto
next
  assume "\<exists>c rest. s = ascii ''/comments/'' @ c # rest \<and> ascii_isalnum c"
  then obtain c rest where s: "s = ascii ''/comments/'' @ c # rest" and c: "ascii_isalnum c" by blast
  have "take 10 s = ascii ''/comments/''" using s comments_literal_length by simp
  moreover have "drop 10 s = c # rest" using s comments_literal_length by simp
  ultimately show "match_here s \<noteq> None" using c by (simp add: match_here_def)
qed

lemma re_search_None_iff:
  "re_search url = None \<longleftrightarrow> (\<forall>pre s. url = pre @ s \<longrightarrow> match_here s = None)"
proof (induction url)
  case Nil
  then show ?case by (simp add: match_here_Nil)
next
  case (Cons c cs)
  have "re_search (c # cs) = None \<longleftrightarrow> match_here (c # cs) = None \<and> re_search cs = None"
    by (simp split: option.splits)
  also have "\<dots> \<longleftrightarrow> match_here (c # cs) = None \<and> (\<forall>pre s. cs = pre @ s \<longrightarrow> match_here s = None)"
    using Cons.IH by simp
  also have "\<dots> \<longleftrightarrow> (\<forall>pre s. c # cs = pre @ s \<longrightarrow> match_here s = None)"
    by (auto simp: Cons_eq_append_conv)
  finally show ?case .
qed

lemma re_search_skip:
  "(\<forall>p q. pre = p @ q \<and> q \<noteq> [] \<longrightarrow> match_here (q @ s) = None) \<Longrightarrow>
     re_search (pre @ s) = re_search s"
proof (induction pre)
  case Nil
  then show ?case by simp
next
  case (Cons c pre)
  have "match_here ((c # pre) @ s) = None" using Cons.prems by blast
  moreover have "\<forall>p q. pre = p @ q \<and> q \<noteq> [] \<longrightarrow> match_here (q @ s) = None"
  proof (intro allI impI)
    fix p q assume "pre = p @ q \<and> q \<noteq> []"
    then have "c # pre = (c # p) @ q \<and> q \<noteq> []" by simp
    then show "match_here (q @ s) = None" using Cons.prems by blast
  qed
  ultimately show ?case using Cons.IH by simp
qed

lemma re_search_here: "match_here s = Some g \<Longrightarrow> re_search s = Some g"
  by (cases s) (simp_all add: match_here_Nil)

lemma extract_post_id_None_iff:
  "extract_post_id url = None \<longleftrightarrow>
     \<not> (\<exists>pre c rest. url = pre @ ascii ''/comments/'' @ c # rest \<and> ascii_isalnum c)"
proof -
  have "extract_post_id url = None \<longleftrightarrow> (\<forall>pre s. url = pre @ s \<longrightarrow> \<not> match_here s \<noteq> None)"
    by (simp add: extract_post_id_def re_search_None_iff)
  also have "\<dots> \<longleftrightarrow> \<not> (\<exists>pre c rest. url = pre @ ascii ''/comments/'' @ c # rest \<and> ascii_isalnum c)"
    unfolding match_here_starts by blast
  finally show ?thesis .
qed

lemma extract_post_id_leftmost:
  assumes url: "url = pre @ ascii ''/comments/'' @ g @ rest"
    and g: "g \<noteq> []" "list_all ascii_isalnum g"
    and rest: "rest = [] \<or> \<not> ascii_isalnum (hd rest)"
    and first: "\<forall>p c r. url = p @ ascii ''/comments/'' @ c # r \<and> ascii_isalnum c \<longrightarrow> length pre \<le> length p"
  shows "extract_post_id url = Some g"
proof -
  let ?s = "ascii ''/comments/'' @ g @ rest"
  have here: "match_here ?s = Some g" using g rest match_here_iff by blast
  have "\<forall>p q. pre = p @ q \<and> q \<noteq> [] \<longrightarrow> match_here (q @ ?s) = None"
  proof (intro allI impI)
    fix p q assume pq: "pre = p @ q \<and> q \<noteq> []"
    show "match_here (q @ ?s) = None"
    proof (rule ccontr)
      assume "match_here (q @ ?s) \<noteq> None"
      then obtain c r where "q @ ?s = ascii ''/comments/'' @ c # r" and c: "ascii_isalnum c"
        using match_here_starts by blast
      then have "url = p @ ascii ''/comments/'' @ c # r" using url pq by simp
      with c first have "length pre \<le> length p" by blast
      with pq show False by simp
    qed
  qed
  then have "re_search (pre @ ?s) = re_search ?s" by (rule re_search_skip)
  with here url show ?thesis by (simp add: extract_post_id_def re_search_here)
qed

lemma segment_here_iff:
  "segment_here s = Some g \<longleftrightarrow>
     (\<exists>post. s = ascii ''/comments/'' @ g @ [47] @ post \<and> g \<noteq> [] \<and> list_all ascii_isalnum g)"
proof
  assume a: "segment_here s = Some g"
  then have t: "take 10 s = ascii ''/comments/''" and g: "g = takeWhile ascii_isalnum (drop 10 s)"
    and ne: "g \<noteq> []" and sl: "take 1 (drop (10 + length g) s) = [47]"
    by (auto simp: segment_here_def Let_def split: if_splits)
  have al: "list_all ascii_isalnum g" using g by (auto simp: list_all_iff dest: set_takeWhileD)
  have "drop 10 s = g @ drop (length g) (drop 10 s)"
    using g by (metis append_take_drop_id takeWhile_eq_take)
  moreover have "drop (length g) (drop 10 s) = [47] @ drop 1 (drop (10 + length g) s)"
    using sl by (metis add.commute append_take_drop_id drop_drop)
  ultimately have "drop 10 s = g @ [47] @ drop 1 (drop (10 + length g) s)" by simp
  moreover have "s = take 10 s @ drop 10 s" by simp
  ultimately have "s = ascii ''/comments/'' @ g @ [47] @ drop 1 (drop (10 + length g) s)"
    using t by metis
  with ne al show "\<exists>post. s = ascii ''/comments/'' @ g @ [47] @ post \<and> g \<noteq> [] \<and> list_all ascii_isalnum g"
    by blast
next
  assume "\<exists>post. s = ascii ''/comments/'' @ g @ [47] @ post \<and> g \<noteq> [] \<and> list_all ascii_isalnum g"
  then obtain post where s: "s = ascii ''/comments/'' @ g @ [47] @ post" and ne: "g \<noteq> []"
    and al: "list_all ascii_isalnum g" by blast
  have t: "take 10 s = ascii ''/comments/''" using s comments_literal_length by simp
  have d: "drop 10 s = g @ [47] @ post" using s comments_literal_length by simp
  have tw: "takeWhile ascii_isalnum (g @ [47] @ post) = g"
    using al not_alnum_slash by (simp add: list_all_iff takeWhile_tail)
  have "drop (10 + length g) s = [47] @ post"
    using d by (metis add.commute append_eq_conv_conj drop_drop)
  then show "segment_here s = Some g" using t d tw ne by (simp add: segment_here_def)
qed

lemma segments_iff:
  "g \<in> set (segments url) \<longleftrightarrow>
     (\<exists>pre post. url = pre @ ascii ''/comments/'' @ g @ [47] @ post \<and> g \<noteq> []
        \<and> list_all ascii_isalnum g)"
proof -
  have "g \<in> set (segments url) \<longleftrightarrow> (\<exists>pre s. url = pre @ s \<and> segment_here s = Some g)"
  proof (induction url)
    case Nil
    then show ?case by (simp add: segment_here_def ascii_def)
  next
    case (Cons c cs)
    have "g \<in> set (segments (c # cs)) \<longleftrightarrow> segment_here (c # cs) = Some g \<or> g \<in> set (segments cs)"
      by (auto split: option.splits)
    also have "\<dots> \<longleftrightarrow> segment_here (c # cs) = Some g \<or> (\<exists>pre s. cs = pre @ s \<and> segment_here s = Some g)"
      using Cons.IH by simp
    also have "\<dots> \<longleftrightarrow> (\<exists>pre s. c # cs = pre @ s \<and> segment_here s = Some g)"
      by (auto simp: Cons_eq_append_conv)
    finally show ?case .
  qed
  then show ?thesis unfolding segment_here_iff by blast
qed

lemma re_search_nonempty: "re_search url \<noteq> Some []"
proof (induction url)
  case Nil then show ?case by simp
next
  case (Cons c cs)
  have "match_here (c # cs) \<noteq> Some []" by (auto simp: match_here_def Let_def)
  with Cons show ?case by (auto split: option.splits)
qed

lemma extract_post_invalid_iff:
  "extract_post remote self url t = ([], Inl (ValueError (ascii ''Invalid Reddit URL'')))
     \<longleftrightarrow> extract_post_id url = None"
  using re_search_nonempty [of url]
  by (auto simp: extract_post_def extract_post_id_def split: option.splits)

text \<open>
  C6. The claim does not hold of the parser: the pattern searched for has no closing
  slash, although the comment above it writes \<^verbatim>\<open>/comments/[post_id]/\<close>. The URL
  \<^verbatim>\<open>/comments/abc\<close> has no segment \<^verbatim>\<open>/comments/<id>/\<close>; the parser returns \<^verbatim>\<open>abc\<close> and the
  extraction goes on to the remote fetch instead of signalling the invalid-input error.
  The URL \<^verbatim>\<open>/comments/x-y/comments/abc/\<close> has the one segment with identifier \<^verbatim>\<open>abc\<close>, and
  the parser returns \<^verbatim>\<open>x\<close>.
\<close>

theorem extract_post_id_not_segment:
  "segments (ascii ''/comments/abc'') = []
   \<and> extract_post_id (ascii ''/comments/abc'') = Some (ascii ''abc'')
   \<and> fst (extract_post scenario_remote scenario_ripper (ascii ''/comments/abc'') False)
       = [RemoteFetch (ascii ''abc'')]
   \<and> segments (ascii ''/comments/x-y/comments/abc/'') = [ascii ''abc'']
   \<and> extract_post_id (ascii ''/comments/x-y/comments/abc/'') = Some (ascii ''x'')"
  by (simp add: segment_here_def extract_post_def extract_post_id_def match_here_def
      ascii_def ascii_isalnum_def)

section \<open>Properties of the document formatter\<close>

lemma format_markdown_eq:
  "format_markdown pd =
     ascii ''# '' @ pd_title pd @ [10, 10]
     @ ascii ''**Original Post:** '' @ pd_url pd @ [10, 10]
     @ ascii ''**Subreddit:** r/'' @ pd_subreddit pd @ [10, 10]
     @ ascii ''## Post Content'' @ [10, 10] @ pd_content pd @ [10, 10]
     @ (if pd_comments pd = [] then []
        else ascii ''## Comments'' @ [10, 10] @ join [10] (pd_comments pd))"
  by (simp add: format_markdown_def nl_def Let_def)

lemma extract_post_content:
  assumes "extract_post_id url = Some post_id" and "remote self post_id = Inr sub"
  shows "\<exists>pd. extract_post remote self url t = ([RemoteFetch post_id], Inr pd)
           \<and> pd_content pd = (if sub_selftext sub = [] then ascii ''[Link Post]'' else sub_selftext sub)
           \<and> pd_title pd = sub_title sub \<and> pd_subreddit pd = sub_display_name sub
           \<and> pd_url pd = url
           \<and> pd_comments pd = extract_comments (sub_comments sub) 0 t"
proof -
  have "post_id \<noteq> []" using assms(1) re_search_nonempty by (auto simp: extract_post_id_def)
  then show ?thesis using assms by (simp add: extract_post_def)
qed

text \<open>
  C7. The document is the title line, the link line, the subreddit line and the post
  content section, each followed by a blank line, and then, only for a non-empty
  comment sequence, the comments heading, a blank line and the lines joined by single
  newlines. The content is the text body of the post, or the marker \<^verbatim>\<open>[Link Post]\<close> when
  the post has none; the substitution is made when the post is extracted. The
  formatter is a function of the record only.
\<close>

theorem format_markdown_layout:
  "format_markdown pd =
     ascii ''# '' @ pd_title pd @ [10, 10]
     @ ascii ''**Original Post:** '' @ pd_url pd @ [10, 10]
     @ ascii ''**Subreddit:** r/'' @ pd_subreddit pd @ [10, 10]
     @ ascii ''## Post Content'' @ [10, 10] @ pd_content pd @ [10, 10]
     @ (if pd_comments pd = [] then []
        else ascii ''## Comments'' @ [10, 10] @ join [10] (pd_comments pd))
   \<and> (extract_post_id url = Some post_id \<and> remote self post_id = Inr sub \<longrightarrow>
        (\<exists>pd'. extract_post remote self url t = ([RemoteFetch post_id], Inr pd')
           \<and> pd_content pd' =
               (if sub_selftext sub = [] then ascii ''[Link Post]'' else sub_selftext sub)))"
  using format_markdown_eq [of pd] extract_post_content [of url post_id remote self sub t]
  by blast

theorem format_markdown_layout_witness:
  "format_markdown scenario_post =
     ascii ''# Some Title'' @ [10, 10]
     @ ascii ''**Original Post:** https://reddit.example/r/test/comments/abc123/some_title/''
     @ [10, 10]
     @ ascii ''**Subreddit:** r/test'' @ [10, 10]
     @ ascii ''## Post Content'' @ [10, 10] @ ascii ''Hello'' @ [10, 10]
     @ ascii ''## Comments'' @ [10, 10] @ ascii ''- Nice!'' @ [10] @ ascii ''  - Thanks!''
   \<and> (\<exists>pd'. extract_post (\<lambda>self post_id. Inr (scenario_submission\<lparr>sub_selftext := []\<rparr>))
              scenario_ripper scenario_url False
            = ([RemoteFetch (ascii ''abc123'')], Inr pd')
          \<and> pd_content pd' = ascii ''[Link Post]'')"
proof -
  have i: "extract_post_id scenario_url = Some (ascii ''abc123'')"
    by (simp add: extract_post_id_def scenario_url_def match_here_def ascii_def
        ascii_isalnum_def)
  have l: "format_markdown scenario_post =
     ascii ''# Some Title'' @ [10, 10]
     @ ascii ''**Original Post:** https://reddit.example/r/test/comments/abc123/some_title/''
     @ [10, 10]
     @ ascii ''**Subreddit:** r/test'' @ [10, 10]
     @ ascii ''## Post Content'' @ [10, 10] @ ascii ''Hello'' @ [10, 10]
     @ ascii ''## Comments'' @ [10, 10] @ ascii ''- Nice!'' @ [10] @ ascii ''  - Thanks!''"
    by (simp add: format_markdown_def scenario_post_def scenario_url_def nl_def ascii_def)
  from format_markdown_layout
    [of scenario_post scenario_url "ascii ''abc123''"
        "\<lambda>self post_id. Inr (scenario_submission\<lparr>sub_selftext := []\<rparr>)" scenario_ripper
        "scenario_submission\<lparr>sub_selftext := []\<rparr>" False] i l
  show ?thesis by simp
qed

section \<open>Properties of the file writer\<close>






section \<open>Properties of the orchestrator\<close>

lemma contains_credentials: "contains (ascii ''credentials'') credentials_message"
  by (simp add: credentials_message_def ascii_def)

lemma main_no_credentials:
  assumes "\<not> truthy (resolve_client_id a getenv) \<or> \<not> truthy (resolve_client_secret a getenv)"
  shows "main U remote getenv fs a = \<lparr> out_events = [Stderr credentials_message], out_exit = 1, out_fs = fs \<rparr>"
  using assms by (auto simp: main_def Let_def)

lemma resolve_flag:
  "arg_client_id a = Some v \<Longrightarrow> v \<noteq> [] \<Longrightarrow> resolve_client_id a getenv = Some v"
  "arg_client_secret a = Some w \<Longrightarrow> w \<noteq> [] \<Longrightarrow> resolve_client_secret a getenv = Some w"
  "\<not> truthy (arg_client_id a) \<Longrightarrow> resolve_client_id a getenv = getenv (ascii ''REDDIT_CLIENT_ID'')"
  "\<not> truthy (arg_client_secret a) \<Longrightarrow> resolve_client_secret a getenv = getenv (ascii ''REDDIT_CLIENT_SECRET'')"
  by (simp_all add: resolve_client_id_def resolve_client_secret_def py_or_def)

text \<open>
  C9, as amended. Each credential is the value of its command-line flag when the flag
  is given with a non-empty value, and otherwise, the flag absent or empty, the value
  of its environment variable. When this leaves the client id or the client secret
  missing or empty, the run prints the message, which contains \<^verbatim>\<open>credentials\<close>, to the
  error stream and exits with code 1; it makes no remote fetch and writes no file.
\<close>

theorem main_credentials:
  "(arg_client_id a = Some v \<and> v \<noteq> [] \<longrightarrow> resolve_client_id a getenv = Some v)
   \<and> (\<not> truthy (arg_client_id a) \<longrightarrow>
         resolve_client_id a getenv = getenv (ascii ''REDDIT_CLIENT_ID''))
   \<and> (arg_client_secret a = Some w \<and> w \<noteq> [] \<longrightarrow> resolve_client_secret a getenv = Some w)
   \<and> (\<not> truthy (arg_client_secret a) \<longrightarrow>
         resolve_client_secret a getenv = getenv (ascii ''REDDIT_CLIENT_SECRET''))
   \<and> (\<not> truthy (resolve_client_id a getenv) \<or> \<not> truthy (resolve_client_secret a getenv) \<longrightarrow>
         out_exit (main U remote getenv fs a) = 1
         \<and> out_events (main U remote getenv fs a) = [Stderr credentials_message]
         \<and> contains (ascii ''credentials'') credentials_message
         \<and> out_fs (main U remote getenv fs a) = fs)"
  using resolve_flag [of a] main_no_credentials [of a getenv U remote fs] contains_credentials
  by simp

theorem main_credentials_witness:
  "resolve_client_id (bare_args\<lparr>arg_client_id := Some (ascii ''cliid'')\<rparr>) id_env
     = Some (ascii ''cliid'')
   \<and> resolve_client_id bare_args id_env = Some (ascii ''envid'')
   \<and> \<not> truthy (resolve_client_secret bare_args id_env)
   \<and> out_exit (main dotted_i_rows scenario_remote id_env empty_fs bare_args) = 1
   \<and> out_events (main dotted_i_rows scenario_remote id_env empty_fs bare_args)
       = [Stderr credentials_message]"
proof -
  have s: "\<not> truthy (resolve_client_secret bare_args id_env)"
    by (simp add: resolve_client_secret_def py_or_def bare_args_def id_env_def ascii_def)
  have n: "\<not> truthy (arg_client_id bare_args)"
    by (simp add: bare_args_def)
  have e: "id_env (ascii ''REDDIT_CLIENT_ID'') = Some (ascii ''envid'')"
    by (simp add: id_env_def)
  have c: "arg_client_id (bare_args\<lparr>arg_client_id := Some (ascii ''cliid'')\<rparr>) = Some (ascii ''cliid'')
           \<and> ascii ''cliid'' \<noteq> []"
    by (simp add: ascii_def)
  from main_credentials
      [of "bare_args\<lparr>arg_client_id := Some (ascii ''cliid'')\<rparr>" "ascii ''cliid''" id_env]
    main_credentials [of bare_args _ id_env _ dotted_i_rows scenario_remote empty_fs]
    s n e c
  show ?thesis by simp
qed

text \<open>
  The claim as written fails when the flag is present with the empty string as its
  value: the value used is the one of the environment, not the one of the flag.
\<close>

theorem main_empty_flag_uses_environment:
  "arg_client_id empty_flag_args = Some []
   \<and> resolve_client_id empty_flag_args id_env = Some (ascii ''envid'')
   \<and> resolve_client_id empty_flag_args id_env \<noteq> arg_client_id empty_flag_args"
  by (simp add: empty_flag_args_def bare_args_def resolve_client_id_def py_or_def id_env_def
      ascii_def)

end
